theory Spec2Isabelle
  imports Main "HOL-Library.Word" "HOL-Library.Monad_Syntax"
begin

section \<open>Conway's Game of Life on a CUDA device: the embedding of main.cu\<close>

text \<open>
  The C type \<open>ubyte\<close> (unsigned char) is an 8-bit word.  The C type \<open>int\<close> is modelled
  by \<open>int\<close>: with the board dimensions of the program (64 by 64) every index computed
  below stays far inside the 32-bit range, so no wrap-around is involved.  (The
  functions are modelled with their parameters \<open>nrows\<close> and \<open>ncols\<close>; what is proved for a
  board of side \<open>n\<close> speaks about the C code as long as \<open>n * n\<close> fits into 32 bits.)

  A buffer is the list of its bytes.  A read or write through an index outside the
  buffer is undefined behaviour in C; here it is the value \<open>None\<close>, so that every
  statement about a result also says that no such access happened.
\<close>

type_synonym ubyte = "8 word"

definition BLOCK_SIDE :: nat where
  "BLOCK_SIDE = 16"

definition load :: "ubyte list \<Rightarrow> int \<Rightarrow> ubyte option" where
  "load buf i = (if 0 \<le> i \<and> i < int (length buf) then Some (buf ! nat i) else None)"

definition store :: "ubyte list \<Rightarrow> int \<Rightarrow> ubyte \<Rightarrow> ubyte list option" where
  "store buf i v = (if 0 \<le> i \<and> i < int (length buf) then Some (buf[nat i := v]) else None)"

subsection \<open>Device memory\<close>

text \<open>
  The program holds two device allocations, \<open>pDevBoard0\<close> and \<open>pDevBoard1\<close>.  Device
  memory maps each of the two pointers to the content of its buffer; the kernel gets
  the pointers, so that reading one buffer while writing the other (or the same one)
  is visible in the model.
\<close>

datatype devptr = pDevBoard0 | pDevBoard1

type_synonym devmem = "devptr \<Rightarrow> ubyte list"

definition dev_load :: "devmem \<Rightarrow> devptr \<Rightarrow> int \<Rightarrow> ubyte option" where
  "dev_load m p i = load (m p) i"

definition dev_store :: "devmem \<Rightarrow> devptr \<Rightarrow> int \<Rightarrow> ubyte \<Rightarrow> devmem option" where
  "dev_store m p i v = map_option (\<lambda>buf. m(p := buf)) (store (m p) i v)"

subsection \<open>getat and numneighbors\<close>

definition getat :: "ubyte list \<Rightarrow> int \<Rightarrow> int \<Rightarrow> int \<Rightarrow> int \<Rightarrow> ubyte option" where
  "getat pboard nrows ncols x y =
     (if x \<ge> 0 \<and> x < ncols \<and> y \<ge> 0 \<and> y < nrows
      then load pboard (x * ncols + y)
      else Some 0)"

text \<open>Each \<open>num += getat(...)\<close> promotes the byte to \<open>int\<close> and adds it.\<close>

definition numneighbors :: "int \<Rightarrow> int \<Rightarrow> ubyte list \<Rightarrow> int \<Rightarrow> int \<Rightarrow> int option" where
  "numneighbors x y pboard nrows ncols = do {
     let num = 0;
     c \<leftarrow> getat pboard nrows ncols (x - 1) y;
     let num = num + uint c;
     c \<leftarrow> getat pboard nrows ncols (x + 1) y;
     let num = num + uint c;
     c \<leftarrow> getat pboard nrows ncols x (y - 1);
     let num = num + uint c;
     c \<leftarrow> getat pboard nrows ncols x (y + 1);
     let num = num + uint c;
     c \<leftarrow> getat pboard nrows ncols (x - 1) (y - 1);
     let num = num + uint c;
     c \<leftarrow> getat pboard nrows ncols (x - 1) (y + 1);
     let num = num + uint c;
     c \<leftarrow> getat pboard nrows ncols (x + 1) (y - 1);
     let num = num + uint c;
     c \<leftarrow> getat pboard nrows ncols (x + 1) (y + 1);
     let num = num + uint c;
     Some num
   }"

subsection \<open>The kernel simstep\<close>

text \<open>
  One thread of the kernel, at the coordinates \<open>x = blockIdx.x * BLOCK_SIDE + threadIdx.x\<close>
  and \<open>y = blockIdx.y * BLOCK_SIDE + threadIdx.y\<close>.  The statements are those of the
  source, in its order; the last test reads \<open>pCurrBoard[indx]\<close> only when the count
  is 3, as the short-circuit \<open>&&\<close> does.
\<close>

definition simstep_thread ::
  "int \<Rightarrow> int \<Rightarrow> devptr \<Rightarrow> devptr \<Rightarrow> int \<Rightarrow> int \<Rightarrow> devmem \<Rightarrow> devmem option" where
  "simstep_thread nrows ncols pCurrBoard pNewBoard x y m = do {
     let indx = x * ncols + y;
     c \<leftarrow> dev_load m pCurrBoard indx;
     m \<leftarrow> dev_store m pNewBoard indx c;
     neighbors \<leftarrow> numneighbors x y (m pCurrBoard) nrows ncols;
     m \<leftarrow> (if neighbors < 2 then dev_store m pNewBoard indx 0 else Some m);
     m \<leftarrow> (if neighbors > 3 then dev_store m pNewBoard indx 0 else Some m);
     (if neighbors = 3
      then do {
        c \<leftarrow> dev_load m pCurrBoard indx;
        (if c = 0 then dev_store m pNewBoard indx 1 else Some m)
      }
      else Some m)
   }"

text \<open>
  The launch \<open>simstep<<<gridsize, blocksize>>>\<close> with \<open>blocksize = (BLOCK_SIDE, BLOCK_SIDE)\<close>
  starts one thread for every block index below \<open>gridsize\<close> and every thread index below
  \<open>BLOCK_SIDE\<close>.  \<open>kernel_threads\<close> lists their coordinates; \<open>run_threads\<close> runs a
  schedule, that is a list of threads, one thread after the other, and fails as soon
  as one thread does.  (A thread reads the current buffer and writes one byte of the
  next buffer, so on the boards of \<open>main\<close> the order of the schedule does not matter:
  see \<open>run_threads_full\<close> below.)
\<close>

definition kernel_threads :: "nat \<Rightarrow> nat \<Rightarrow> (int \<times> int) list" where
  "kernel_threads gx gy =
     [(int (bx * BLOCK_SIDE + tx), int (by * BLOCK_SIDE + ty)).
        bx \<leftarrow> [0..<gx], by \<leftarrow> [0..<gy], tx \<leftarrow> [0..<BLOCK_SIDE], ty \<leftarrow> [0..<BLOCK_SIDE]]"

fun run_threads ::
  "(int \<Rightarrow> int \<Rightarrow> devmem \<Rightarrow> devmem option) \<Rightarrow> (int \<times> int) list \<Rightarrow> devmem \<Rightarrow> devmem option" where
  "run_threads k [] m = Some m"
| "run_threads k ((x, y) # ts) m =
     (case k x y m of None \<Rightarrow> None | Some m' \<Rightarrow> run_threads k ts m')"

definition simstep ::
  "nat \<Rightarrow> nat \<Rightarrow> int \<Rightarrow> int \<Rightarrow> devptr \<Rightarrow> devptr \<Rightarrow> devmem \<Rightarrow> devmem option" where
  "simstep gx gy nrows ncols pCurrBoard pNewBoard m =
     run_threads (simstep_thread nrows ncols pCurrBoard pNewBoard) (kernel_threads gx gy) m"

subsection \<open>Host code: loops, randomizeBoard and printBoard\<close>

text \<open>
  A counting loop \<open>for (int i = 0; i < bound; i++)\<close> runs its body for the indices
  \<open>[0..<nat bound]\<close>, threading the state, and stops at the first failing access.
\<close>

fun for_loop :: "nat list \<Rightarrow> (nat \<Rightarrow> 's \<Rightarrow> 's option) \<Rightarrow> 's \<Rightarrow> 's option" where
  "for_loop [] body s = Some s"
| "for_loop (i # is) body s =
     (case body i s of None \<Rightarrow> None | Some s' \<Rightarrow> for_loop is body s')"

text \<open>
  \<open>randomizeBoard\<close> draws \<open>rand() / (float)RAND_MAX\<close> once per cell and compares it with
  \<open>probability\<close>.  The floating-point draw is not modelled: the parameter \<open>rnd_ge x y\<close>
  is the outcome of the test \<open>rnd >= probability\<close> in the iteration \<open>(x, y)\<close>.
\<close>

definition randomizeBoard ::
  "(nat \<Rightarrow> nat \<Rightarrow> bool) \<Rightarrow> ubyte list \<Rightarrow> int \<Rightarrow> int \<Rightarrow> ubyte list option" where
  "randomizeBoard rnd_ge pboard nrows ncols =
     for_loop [0..<nat ncols] (\<lambda>x.
       for_loop [0..<nat nrows] (\<lambda>y buf.
         store buf (int x * ncols + int y) (if rnd_ge x y then 0x1 else 0x0)))
       pboard"

text \<open>\<open>printBoard\<close> returns the text it prints: the message, then one line per \<open>x\<close>.\<close>

definition printBoard :: "string \<Rightarrow> ubyte list \<Rightarrow> int \<Rightarrow> int \<Rightarrow> string option" where
  "printBoard msg pboard nrows ncols =
     for_loop [0..<nat ncols] (\<lambda>x out. do {
         out \<leftarrow> for_loop [0..<nat nrows] (\<lambda>y out. do {
             c \<leftarrow> load pboard (int x * ncols + int y);
             Some (out @ [if c \<noteq> 0 then CHR ''o'' else CHR '' '', CHR '' ''])
           }) out;
         Some (out @ [CHR 0x0A])
       })
       (msg @ [CHR 0x0A])"

subsection \<open>The C library function atoi\<close>

text \<open>
  \<open>atoi\<close> belongs to the C library, not to the program.  It is modelled as the C standard
  describes it: white space is skipped, an optional sign is read, then decimal digits
  up to the first other character; without digits the result is 0.  (A value outside
  the range of \<open>int\<close> is undefined behaviour in C and is not modelled.)
\<close>

definition isspace :: "char \<Rightarrow> bool" where
  "isspace c = (c \<in> set [CHR '' '', CHR 0x09, CHR 0x0A, CHR 0x0B, CHR 0x0C, CHR 0x0D])"

definition isdigit :: "char \<Rightarrow> bool" where
  "isdigit c = (of_char CHR ''0'' \<le> (of_char c :: nat) \<and> (of_char c :: nat) \<le> of_char CHR ''9'')"

fun atoi_digits :: "int \<Rightarrow> string \<Rightarrow> int" where
  "atoi_digits acc [] = acc"
| "atoi_digits acc (c # cs) =
     (if isdigit c then atoi_digits (acc * 10 + (of_char c - of_char CHR ''0'')) cs else acc)"

definition atoi :: "string \<Rightarrow> int" where
  "atoi s =
     (case dropWhile isspace s of
        [] \<Rightarrow> 0
      | c # cs \<Rightarrow>
          if c = CHR ''-'' then - atoi_digits 0 cs
          else if c = CHR ''+'' then atoi_digits 0 cs
          else atoi_digits 0 (c # cs))"

subsection \<open>main\<close>

definition boardW :: int where
  "boardW = 64"

definition boardH :: int where
  "boardH = 64"

text \<open>The generation count: \<open>argc\<close> is the length of \<open>argv\<close>, program name included.\<close>

definition ngenerations_of :: "string list \<Rightarrow> int" where
  "ngenerations_of argv = (if length argv > 1 then atoi (argv ! 1) else 1000000)"

text \<open>
  The generation loop of \<open>main\<close>.  Its state is the device memory and the two local
  pointers \<open>pcurr\<close> and \<open>pnext\<close>, which are uninitialised (\<open>None\<close>) until the body has
  run once.  \<open>gx\<close> and \<open>gy\<close> are the components of \<open>gridsize\<close>.  (The per-generation
  printing under \<open>PRINT_BOARDS\<close> is not compiled in by the Makefile.)
\<close>

definition generation_loop ::
  "nat \<Rightarrow> nat \<Rightarrow> int \<Rightarrow> int \<Rightarrow> int \<Rightarrow> devmem
   \<Rightarrow> (devmem \<times> devptr option \<times> devptr option) option" where
  "generation_loop gx gy bH bW ngenerations m =
     for_loop [0..<nat ngenerations] (\<lambda>gen (m, _, _).
         let (pcurr, pnext) =
               (if gen mod 2 = 0 then (pDevBoard0, pDevBoard1) else (pDevBoard1, pDevBoard0))
         in do {
           m \<leftarrow> simstep gx gy bH bW pcurr pnext m;
           Some (m, Some pcurr, Some pnext)
         })
       (m, None, None)"

text \<open>
  What the environment decides for one run: the command line, whether each of the three
  allocations succeeds, the indeterminate content of the fresh host buffer, and the
  outcomes of the random draws.
\<close>

record env =
  argv :: "string list"
  malloc_ok :: bool
  cudaMalloc0_ok :: bool
  cudaMalloc1_ok :: bool
  garbage :: "nat \<Rightarrow> ubyte"
  rnd_ge :: "nat \<Rightarrow> nat \<Rightarrow> bool"

text \<open>
  What a completed run has printed: the count in the first line, the two renderings
  of \<open>printBoard\<close>, and the count in the summary line.  (The elapsed time of the summary
  line is a floating-point measurement and is left out.)
\<close>

record printed =
  running :: int
  initial_board :: string
  resulting_board :: string
  summary :: int

text \<open>
  How a run can end.  \<open>Exit0\<close> is the \<open>return 0\<close> of \<open>main\<close>.  \<open>Aborted\<close> stands for a
  run that the program itself ends with a diagnostic; \<open>main\<close> has no statement that
  does so.  \<open>Fault\<close> records the first use of memory that the program does not own:
  a write through the null pointer that a failed \<open>malloc\<close> returned, an unallocated
  device buffer handed to \<open>cudaMemcpy\<close> or \<open>cudaMemset\<close> (which report the error in a
  return value that \<open>main\<close> ignores), the pointer \<open>pcurr\<close> read before it was ever
  assigned, or an index outside a buffer.
\<close>

datatype fault = NullHostBuffer | InvalidDeviceBuffer | UninitialisedPointer | OutOfBounds

datatype outcome = Exit0 printed | Aborted string | Fault fault

definition main :: "env \<Rightarrow> outcome" where
  "main e =
     (let ngenerations = ngenerations_of (argv e);
          cells = nat (boardW * boardH)
      in
      if \<not> malloc_ok e then Fault NullHostBuffer
      else
        case randomizeBoard (rnd_ge e) (map (garbage e) [0..<cells]) boardH boardW of
          None \<Rightarrow> Fault OutOfBounds
        | Some pboard \<Rightarrow>
        case printBoard ''Initial Board:'' pboard boardH boardW of
          None \<Rightarrow> Fault OutOfBounds
        | Some initial \<Rightarrow>
        if \<not> cudaMalloc0_ok e then Fault InvalidDeviceBuffer
        else if \<not> cudaMalloc1_ok e then Fault InvalidDeviceBuffer
        else
          let m = (\<lambda>p. case p of pDevBoard0 \<Rightarrow> pboard | pDevBoard1 \<Rightarrow> replicate cells 0x0)
          in
          case generation_loop (nat (boardW div int BLOCK_SIDE)) (nat (boardH div int BLOCK_SIDE))
                 boardH boardW ngenerations m of
            None \<Rightarrow> Fault OutOfBounds
          | Some (m, None, _) \<Rightarrow> Fault UninitialisedPointer
          | Some (m, Some pcurr, _) \<Rightarrow>
          case printBoard ''Resulting Board:'' (m pcurr) boardH boardW of
            None \<Rightarrow> Fault OutOfBounds
          | Some resulting \<Rightarrow>
              Exit0 \<lparr>running = ngenerations, initial_board = initial,
                     resulting_board = resulting, summary = ngenerations\<rparr>)"

section \<open>The rules of the game, stated on boards\<close>

text \<open>
  The definitions of this section do not come from the code.  They state what the
  specification says about a square board of side \<open>n\<close> stored in a buffer of \<open>n * n\<close>
  bytes, so that the code can be compared with them.  \<open>main\<close> only ever has such boards:
  \<open>boardW\<close> and \<open>boardH\<close> are both 64.
\<close>

text \<open>The cell at \<open>(x, y)\<close>, dead outside the board.\<close>

definition cell_at :: "int \<Rightarrow> ubyte list \<Rightarrow> int \<Rightarrow> int \<Rightarrow> ubyte" where
  "cell_at n b x y = (if 0 \<le> x \<and> x < n \<and> 0 \<le> y \<and> y < n then b ! nat (x * n + y) else 0)"

text \<open>The sum of the eight cells around \<open>(x, y)\<close>.\<close>

definition live_count :: "int \<Rightarrow> ubyte list \<Rightarrow> int \<Rightarrow> int \<Rightarrow> int" where
  "live_count n b x y =
     uint (cell_at n b (x - 1) y) + uint (cell_at n b (x + 1) y)
   + uint (cell_at n b x (y - 1)) + uint (cell_at n b x (y + 1))
   + uint (cell_at n b (x - 1) (y - 1)) + uint (cell_at n b (x - 1) (y + 1))
   + uint (cell_at n b (x + 1) (y - 1)) + uint (cell_at n b (x + 1) (y + 1))"

text \<open>
  The four rules: birth on a count of 3, death on a count below 2 or above 3, and no
  change otherwise.
\<close>

definition life_rule :: "ubyte \<Rightarrow> int \<Rightarrow> ubyte" where
  "life_rule c k = (if k = 3 \<and> c = 0 then 1 else if k < 2 \<or> 3 < k then 0 else c)"

text \<open>The next generation, cell by cell; the cell of index \<open>i\<close> is \<open>(i div n, i mod n)\<close>.\<close>

definition next_cell :: "int \<Rightarrow> ubyte list \<Rightarrow> nat \<Rightarrow> ubyte" where
  "next_cell n b i = life_rule (b ! i) (live_count n b (int i div n) (int i mod n))"

definition next_gen :: "int \<Rightarrow> ubyte list \<Rightarrow> ubyte list" where
  "next_gen n b = map (next_cell n b) [0..<length b]"

text \<open>The index of a cell in the buffer, and the cells that lie on the board.\<close>

definition flat :: "int \<Rightarrow> int \<times> int \<Rightarrow> nat" where
  "flat n = (\<lambda>(x, y). nat (x * n + y))"

definition in_board :: "int \<Rightarrow> int \<times> int \<Rightarrow> bool" where
  "in_board n = (\<lambda>(x, y). 0 \<le> x \<and> x < n \<and> 0 \<le> y \<and> y < n)"

text \<open>A board whose bytes are all 0 or 1.\<close>

definition binary :: "ubyte list \<Rightarrow> bool" where
  "binary b = list_all (\<lambda>c. c = 0 \<or> c = 1) b"

text \<open>The board of side \<open>n\<close> whose live cells are those that satisfy \<open>P\<close>, and the neighbour count
  of a cell on it.\<close>

definition board_of :: "int \<Rightarrow> (int \<Rightarrow> int \<Rightarrow> bool) \<Rightarrow> ubyte list" where
  "board_of n P = map (\<lambda>i. if P (int i div n) (int i mod n) then 1 else 0) [0..<nat (n * n)]"

definition count_of :: "(int \<Rightarrow> int \<Rightarrow> bool) \<Rightarrow> int \<Rightarrow> int \<Rightarrow> int" where
  "count_of P x y =
     (if P (x - 1) y then 1 else 0) + (if P (x + 1) y then 1 else 0)
   + (if P x (y - 1) then 1 else 0) + (if P x (y + 1) then 1 else 0)
   + (if P (x - 1) (y - 1) then 1 else 0) + (if P (x - 1) (y + 1) then 1 else 0)
   + (if P (x + 1) (y - 1) then 1 else 0) + (if P (x + 1) (y + 1) then 1 else 0)"

text \<open>
  \<open>printBoard\<close> prints one line for each \<open>x\<close>, so three cells with the same \<open>x\<close> lie
  side by side on the screen and three cells with the same \<open>y\<close> lie one above the other.
\<close>

definition blinker_horizontal :: "int \<Rightarrow> int \<Rightarrow> int \<Rightarrow> int \<Rightarrow> bool" where
  "blinker_horizontal cx cy x y = (x = cx \<and> cy - 1 \<le> y \<and> y \<le> cy + 1)"

definition blinker_vertical :: "int \<Rightarrow> int \<Rightarrow> int \<Rightarrow> int \<Rightarrow> bool" where
  "blinker_vertical cx cy x y = (y = cy \<and> cx - 1 \<le> x \<and> x \<le> cx + 1)"

text \<open>The eight offsets in the order in which \<open>numneighbors\<close> reads them.\<close>

definition neighbour_offsets :: "(int \<times> int) list" where
  "neighbour_offsets = [(-1, 0), (1, 0), (0, -1), (0, 1), (-1, -1), (-1, 1), (1, -1), (1, 1)]"

text \<open>
  Counting by hand: the live cells among the nine cells of the 3 by 3 block around
  \<open>(x, y)\<close>, minus the centre if it is alive.
\<close>

definition manual_count :: "int \<Rightarrow> ubyte list \<Rightarrow> int \<Rightarrow> int \<Rightarrow> int" where
  "manual_count n b x y =
     int (length (filter (\<lambda>(dx, dy). b ! nat ((x + dx) * n + (y + dy)) \<noteq> 0)
            [(dx, dy). dx \<leftarrow> [-1, 0, 1], dy \<leftarrow> [-1, 0, 1]]))
     - (if b ! nat (x * n + y) \<noteq> 0 then 1 else 0)"

text \<open>After \<open>k\<close> generations the newest board is in the buffer \<open>newest k\<close>.\<close>

definition newest :: "nat \<Rightarrow> devptr" where
  "newest k = (if even k then pDevBoard0 else pDevBoard1)"

text \<open>A command-line argument without a number at its start (after white space and a sign).\<close>

definition non_numeric :: "string \<Rightarrow> bool" where
  "non_numeric s =
     (case dropWhile isspace s of
        [] \<Rightarrow> True
      | c # cs \<Rightarrow>
          if c = CHR ''-'' \<or> c = CHR ''+''
          then (case cs of [] \<Rightarrow> True | d # _ \<Rightarrow> \<not> isdigit d)
          else \<not> isdigit c)"

text \<open>
  The byte that \<open>randomizeBoard\<close> stores at the index \<open>i\<close> of a board of side \<open>w\<close>, and the
  board that it leaves in the host buffer of \<open>main\<close>.
\<close>

definition drawn :: "(nat \<Rightarrow> nat \<Rightarrow> bool) \<Rightarrow> nat \<Rightarrow> nat \<Rightarrow> ubyte" where
  "drawn r w i = (if r (i div w) (i mod w) then 1 else 0)"

definition first_board :: "env \<Rightarrow> ubyte list" where
  "first_board e = map (drawn (rnd_ge e) (nat boardW)) [0..<nat (boardW * boardW)]"

text \<open>
  The character that \<open>printBoard\<close> prints for a cell, and the lines that it prints for a
  board of side \<open>w\<close>.
\<close>

definition glyph :: "ubyte \<Rightarrow> char" where
  "glyph c = (if c \<noteq> 0 then CHR ''o'' else CHR '' '')"

definition render :: "nat \<Rightarrow> ubyte list \<Rightarrow> string" where
  "render w b =
     concat (map (\<lambda>x. concat (map (\<lambda>y. [glyph (b ! (x * w + y)), CHR '' '']) [0..<w]) @ [CHR 0x0A])
               [0..<w])"

text \<open>
  A run of one generation (\<open>./gol 1\<close>) in which every allocation succeeds and the random
  draws make the cell \<open>(0, 0)\<close> alive and every other cell dead.
\<close>

definition lone_cell_run :: env where
  "lone_cell_run =
     \<lparr>argv = [''./gol'', ''1''], malloc_ok = True, cudaMalloc0_ok = True, cudaMalloc1_ok = True,
      garbage = (\<lambda>i. 0), rnd_ge = (\<lambda>x y. x = 0 \<and> y = 0)\<rparr>"

text \<open>A run in which the host allocation fails.\<close>

definition malloc_failure_run :: env where
  "malloc_failure_run =
     \<lparr>argv = [''./gol''], malloc_ok = False, cudaMalloc0_ok = True, cudaMalloc1_ok = True,
      garbage = (\<lambda>i. 0), rnd_ge = (\<lambda>x y. False)\<rparr>"

section \<open>The code on square boards\<close>

subsection \<open>Index arithmetic\<close>

lemma index_bounds:
  fixes x y n :: int
  assumes "0 \<le> x" "x < n" "0 \<le> y" "y < n"
  shows "0 \<le> x * n + y" and "x * n + y < n * n"
proof -
  from assms show "0 \<le> x * n + y" by simp
  have "x * n \<le> (n - 1) * n" using assms by (intro mult_right_mono) auto
  then show "x * n + y < n * n" using assms by (simp add: algebra_simps)
qed

lemma index_div:
  fixes x y n :: int
  shows "0 \<le> y \<Longrightarrow> y < n \<Longrightarrow> (x * n + y) div n = x"
  by (simp add: div_pos_pos_trivial)

lemma index_mod:
  fixes x y n :: int
  shows "0 \<le> y \<Longrightarrow> y < n \<Longrightarrow> (x * n + y) mod n = y"
  by simp

lemma index_inj:
  fixes x y n :: int
  assumes "0 \<le> y" "y < n" "0 \<le> y'" "y' < n" "x * n + y = x' * n + y'"
  shows "x = x' \<and> y = y'"
  using index_div[of y n x] index_div[of y' n x'] index_mod[of y n x] index_mod[of y' n x'] assms
  by metis

subsection \<open>The accessor and the neighbour count\<close>

lemma getat_square:
  assumes "length b = nat (n * n)"
  shows "getat b n n x y = Some (cell_at n b x y)"
  using assms index_bounds[of x n y] by (auto simp: getat_def cell_at_def load_def)

lemma numneighbors_square:
  assumes "length b = nat (n * n)"
  shows "numneighbors x y b n n = Some (live_count n b x y)"
  by (simp add: numneighbors_def getat_square[OF assms] live_count_def)

lemma corner_count:
  assumes "length b = nat (n * n)" "2 \<le> n"
  shows "numneighbors 0 0 b n n =
         Some (uint (b ! nat (1 * n + 0)) + uint (b ! nat (0 * n + 1)) + uint (b ! nat (1 * n + 1)))"
  using assms by (simp add: numneighbors_square live_count_def cell_at_def)

lemma length_filter_sum:
  "int (length (filter P xs)) = (\<Sum>x\<leftarrow>xs. if P x then 1 else 0)"
  by (induction xs) auto

lemma binary_uint:
  assumes "binary b" "i < length b"
  shows "uint (b ! i) = (if b ! i \<noteq> 0 then 1 else 0)"
proof -
  have "b ! i = 0 \<or> b ! i = 1" using assms by (simp add: binary_def list_all_length)
  then show ?thesis by auto
qed

lemma interior_cell:
  assumes "length b = nat (n * n)" "binary b" "0 \<le> x" "x < n" "0 \<le> y" "y < n"
  shows "uint (cell_at n b x y) = (if b ! nat (x * n + y) \<noteq> 0 then 1 else 0)"
proof -
  have "nat (x * n + y) < length b" using index_bounds[of x n y] assms by simp
  then show ?thesis using assms binary_uint[of b "nat (x * n + y)"] by (simp add: cell_at_def)
qed

lemma interior_count:
  assumes "length b = nat (n * n)" "binary b" "1 \<le> x" "x \<le> n - 2" "1 \<le> y" "y \<le> n - 2"
  shows "live_count n b x y = manual_count n b x y"
proof -
  have c: "uint (cell_at n b (x + dx) (y + dy)) = (if b ! nat ((x + dx) * n + (y + dy)) \<noteq> 0 then 1 else 0)"
    if "dx \<in> {-1, 0, 1}" "dy \<in> {-1, 0, 1}" for dx dy
    using that assms by (intro interior_cell) auto
  have "live_count n b x y =
      (\<Sum>(dx, dy)\<leftarrow>neighbour_offsets. if b ! nat ((x + dx) * n + (y + dy)) \<noteq> 0 then 1 else 0)"
    unfolding live_count_def neighbour_offsets_def
    using c[of "-1" 0] c[of 1 0] c[of 0 "-1"] c[of 0 1] c[of "-1" "-1"] c[of "-1" 1] c[of 1 "-1"] c[of 1 1]
    by simp
  also have "\<dots> = manual_count n b x y"
    unfolding manual_count_def length_filter_sum neighbour_offsets_def by simp
  finally show ?thesis .
qed

subsection \<open>One thread\<close>

lemma simstep_thread_square:
  assumes "pc \<noteq> pn" "length (m pc) = nat (n * n)" "length (m pn) = nat (n * n)"
    and "0 \<le> x" "x < n" "0 \<le> y" "y < n"
  shows "simstep_thread n n pc pn x y m =
         Some (m(pn := (m pn)[nat (x * n + y) := life_rule (m pc ! nat (x * n + y)) (live_count n (m pc) x y)]))"
  using assms index_bounds[of x n y]
  by (auto simp: simstep_thread_def dev_load_def dev_store_def load_def store_def
      numneighbors_square life_rule_def Let_def)

lemma simstep_thread_writes_one:
  assumes "pc \<noteq> pn" "length (m pc) = nat (n * n)" "length (m pn) = nat (n * n)"
    and "0 \<le> x" "x < n" "0 \<le> y" "y < n"
  shows "\<exists>v. simstep_thread n n pc pn x y m = Some (m(pn := (m pn)[nat (x * n + y) := v]))"
  using simstep_thread_square[OF assms] by blast

lemma next_cell_flat:
  assumes "0 \<le> x" "x < n" "0 \<le> y" "y < n"
  shows "next_cell n b (nat (x * n + y)) = life_rule (b ! nat (x * n + y)) (live_count n b x y)"
  using assms index_bounds[of x n y] by (simp add: next_cell_def index_div)

subsection \<open>The whole launch\<close>

text \<open>
  A schedule of threads on the board leaves, in every cell that one of its threads
  owns, the cell of the next generation, and leaves the other cells as they were.  A
  schedule that holds exactly the cells of the board, in any order and with any
  repetition, therefore computes the next generation; the launch is such a schedule.
\<close>

lemma run_threads_square:
  assumes "pc \<noteq> pn" "length (m pc) = nat (n * n)" "length (m pn) = nat (n * n)"
    and "\<forall>t \<in> set ts. in_board n t"
  shows "run_threads (simstep_thread n n pc pn) ts m =
         Some (m(pn := map (\<lambda>i. if i \<in> flat n ` set ts then next_cell n (m pc) i else m pn ! i)
                         [0..<length (m pn)]))"
  using assms
proof (induction ts arbitrary: m)
  case Nil
  have "map ((!) (m pn)) [0..<length (m pn)] = m pn" by (rule map_nth)
  then show ?case by simp
next
  case (Cons t ts)
  obtain x y where t: "t = (x, y)" by (cases t)
  from Cons.prems t have xy: "0 \<le> x" "x < n" "0 \<le> y" "y < n" by (auto simp: in_board_def)
  define v where "v = life_rule (m pc ! nat (x * n + y)) (live_count n (m pc) x y)"
  define m1 where "m1 = m(pn := (m pn)[nat (x * n + y) := v])"
  have step: "simstep_thread n n pc pn x y m = Some m1"
    unfolding m1_def v_def using Cons.prems(1-3) xy by (rule simstep_thread_square)
  have m1: "m1 pc = m pc" "length (m1 pn) = nat (n * n)" "length (m1 pc) = nat (n * n)"
    using Cons.prems by (auto simp: m1_def)
  have ih: "run_threads (simstep_thread n n pc pn) ts m1 =
        Some (m1(pn := map (\<lambda>i. if i \<in> flat n ` set ts then next_cell n (m1 pc) i else m1 pn ! i)
                         [0..<length (m1 pn)]))"
    using Cons.prems m1 by (intro Cons.IH) auto
  have eq: "map (\<lambda>i. if i \<in> flat n ` set ts then next_cell n (m1 pc) i else m1 pn ! i) [0..<length (m1 pn)]
      = map (\<lambda>i. if i \<in> flat n ` set (t # ts) then next_cell n (m pc) i else m pn ! i) [0..<length (m pn)]"
    using xy Cons.prems(3) m1 next_cell_flat[OF xy, of "m pc"]
    by (auto simp: m1_def t flat_def v_def nth_list_update)
  have "run_threads (simstep_thread n n pc pn) (t # ts) m = run_threads (simstep_thread n n pc pn) ts m1"
    using step by (simp add: t)
  also have "\<dots> = Some (m1(pn := map (\<lambda>i. if i \<in> flat n ` set (t # ts) then next_cell n (m pc) i else m pn ! i) [0..<length (m pn)]))"
    unfolding ih eq ..
  also have "m1(pn := map (\<lambda>i. if i \<in> flat n ` set (t # ts) then next_cell n (m pc) i else m pn ! i) [0..<length (m pn)])
     = m(pn := map (\<lambda>i. if i \<in> flat n ` set (t # ts) then next_cell n (m pc) i else m pn ! i) [0..<length (m pn)])"
    unfolding m1_def by (rule fun_upd_upd)
  finally show ?case .
qed

lemma run_threads_full:
  assumes "pc \<noteq> pn" "length (m pc) = nat (n * n)" "length (m pn) = nat (n * n)"
    and "0 \<le> n" "set ts = {t. in_board n t}"
  shows "run_threads (simstep_thread n n pc pn) ts m = Some (m(pn := next_gen n (m pc)))"
proof -
  have cover: "i \<in> flat n ` set ts" if "i < nat (n * n)" for i
  proof -
    from that assms(4) have n: "0 < n" by (cases "n = 0") auto
    have "i < nat n * nat n" using that n by (simp add: nat_mult_distrib)
    then have "i div nat n < nat n" by (rule less_mult_imp_div_less)
    moreover have "int i div n = int (i div nat n)" using n by (simp add: zdiv_int)
    ultimately have "int i div n < n" by simp
    then have "in_board n (int i div n, int i mod n)" using n by (simp add: in_board_def pos_imp_zdiv_nonneg_iff)
    moreover have "flat n (int i div n, int i mod n) = i" by (simp add: flat_def)
    ultimately show ?thesis using assms(5) by (metis image_eqI mem_Collect_eq)
  qed
  have "run_threads (simstep_thread n n pc pn) ts m =
        Some (m(pn := map (\<lambda>i. if i \<in> flat n ` set ts then next_cell n (m pc) i else m pn ! i)
                         [0..<length (m pn)]))"
    using assms by (intro run_threads_square) auto
  moreover have "map (\<lambda>i. if i \<in> flat n ` set ts then next_cell n (m pc) i else m pn ! i) [0..<length (m pn)]
      = next_gen n (m pc)"
    using cover assms(2,3) by (simp add: next_gen_def)
  ultimately show ?thesis by simp
qed

lemma set_kernel_threads:
  "set (kernel_threads gx gy) = {(int x, int y) | x y. x < gx * BLOCK_SIDE \<and> y < gy * BLOCK_SIDE}"
proof -
  have split: "(\<exists>b < g. \<exists>t < BLOCK_SIDE. x = b * BLOCK_SIDE + t) \<longleftrightarrow> x < g * BLOCK_SIDE" for x g :: nat
  proof
    assume "\<exists>b < g. \<exists>t < BLOCK_SIDE. x = b * BLOCK_SIDE + t"
    then obtain b t where bt: "b < g" "t < BLOCK_SIDE" "x = b * BLOCK_SIDE + t" by blast
    then have "x < (b + 1) * BLOCK_SIDE" by simp
    also have "\<dots> \<le> g * BLOCK_SIDE" using bt(1) by (intro mult_le_mono1) simp
    finally show "x < g * BLOCK_SIDE" .
  next
    assume a: "x < g * BLOCK_SIDE"
    have "x div BLOCK_SIDE < g" using a by (simp add: BLOCK_SIDE_def) 
    moreover have "x mod BLOCK_SIDE < BLOCK_SIDE" by (simp add: BLOCK_SIDE_def)
    moreover have "x = (x div BLOCK_SIDE) * BLOCK_SIDE + x mod BLOCK_SIDE" by simp
    ultimately show "\<exists>b < g. \<exists>t < BLOCK_SIDE. x = b * BLOCK_SIDE + t" by blast
  qed
  have "set (kernel_threads gx gy) =
        {(int x, int y) | x y. (\<exists>b < gx. \<exists>t < BLOCK_SIDE. x = b * BLOCK_SIDE + t)
                           \<and> (\<exists>b < gy. \<exists>t < BLOCK_SIDE. y = b * BLOCK_SIDE + t)}"
    by (fastforce simp: kernel_threads_def simp del: of_nat_add of_nat_mult)
  then show ?thesis unfolding split .
qed

lemma simstep_square:
  assumes "pc \<noteq> pn" "length (m pc) = nat (n * n)" "length (m pn) = nat (n * n)"
    and "n = int (g * BLOCK_SIDE)"
  shows "simstep g g n n pc pn m = Some (m(pn := next_gen n (m pc)))"
proof -
  have "set (kernel_threads g g) = {t. in_board n t}"
  proof -
    have "in_board n (x, y) \<longleftrightarrow> (\<exists>a b. x = int a \<and> y = int b \<and> a < g * BLOCK_SIDE \<and> b < g * BLOCK_SIDE)" for x y
      unfolding in_board_def assms(4) 
      by (metis (no_types, lifting) case_prod_conv nat_int of_nat_0_le_iff of_nat_less_iff zero_le_imp_eq_int)
    then show ?thesis unfolding set_kernel_threads by auto
  qed
  moreover have "0 \<le> n" using assms(4) by simp
  ultimately show ?thesis unfolding simstep_def using assms(1-3) by (intro run_threads_full)
qed

lemma simstep_keeps_current:
  assumes "pc \<noteq> pn" "length (m pc) = nat (n * n)" "length (m pn) = nat (n * n)"
    and "n = int (g * BLOCK_SIDE)"
  shows "\<exists>m'. simstep g g n n pc pn m = Some m' \<and> m' pc = m pc"
  using simstep_square[OF assms] assms(1) by simp

lemma length_next_gen: "length (next_gen n b) = length b"
  by (simp add: next_gen_def)

lemma next_gen_nth:
  assumes "length b = nat (n * n)" "0 \<le> x" "x < n" "0 \<le> y" "y < n"
  shows "next_gen n b ! nat (x * n + y) = life_rule (b ! nat (x * n + y)) (live_count n b x y)"
proof -
  have "nat (x * n + y) < length b" using index_bounds[of x n y] assms by simp
  then have "next_gen n b ! nat (x * n + y) = next_cell n b (nat (x * n + y))"
    by (simp add: next_gen_def)
  then show ?thesis using next_cell_flat[of x n y b] assms by simp
qed




subsection \<open>Boards given by a predicate\<close>

lemma board_of_nth:
  assumes "0 \<le> x" "x < n" "0 \<le> y" "y < n"
  shows "board_of n P ! nat (x * n + y) = (if P x y then 1 else 0)"
proof -
  have "nat (x * n + y) < nat (n * n)" using index_bounds[of x n y] assms by simp
  then show ?thesis using assms index_bounds[of x n y] by (simp add: board_of_def index_div)
qed

lemma cell_at_board_of:
  assumes "\<And>x y. P x y \<Longrightarrow> 0 \<le> x \<and> x < n \<and> 0 \<le> y \<and> y < n"
  shows "uint (cell_at n (board_of n P) x y) = (if P x y then 1 else 0)"
proof (cases "0 \<le> x \<and> x < n \<and> 0 \<le> y \<and> y < n")
  case True
  then show ?thesis by (simp add: cell_at_def board_of_nth)
next
  case False
  then have "\<not> P x y" using assms by blast
  moreover from False have "cell_at n (board_of n P) x y = 0"
    unfolding cell_at_def by (rule if_not_P)
  ultimately show ?thesis by simp
qed

lemma live_count_board_of:
  assumes "\<And>x y. P x y \<Longrightarrow> 0 \<le> x \<and> x < n \<and> 0 \<le> y \<and> y < n"
  shows "live_count n (board_of n P) x y = count_of P x y"
proof -
  have c: "uint (cell_at n (board_of n P) x y) = (if P x y then 1 else 0)" for x y
    using assms by (rule cell_at_board_of)
  show ?thesis by (simp add: live_count_def count_of_def c)
qed

lemma next_gen_board_of:
  assumes "\<And>x y. P x y \<Longrightarrow> 0 \<le> x \<and> x < n \<and> 0 \<le> y \<and> y < n"
    and "\<And>x y. life_rule (if P x y then 1 else 0) (count_of P x y) = (if Q x y then 1 else 0)"
  shows "next_gen n (board_of n P) = board_of n Q"
proof (rule nth_equalityI)
  show "length (next_gen n (board_of n P)) = length (board_of n Q)"
    by (simp add: next_gen_def board_of_def)
next
  fix i assume "i < length (next_gen n (board_of n P))"
  then have i: "i < nat (n * n)" by (simp add: next_gen_def board_of_def)
  have lc: "live_count n (board_of n P) x y = count_of P x y" for x y
    using assms(1) by (rule live_count_board_of)
  have "next_gen n (board_of n P) ! i = next_cell n (board_of n P) i"
    using i by (simp add: next_gen_def board_of_def)
  also have "\<dots> = life_rule (board_of n P ! i) (count_of P (int i div n) (int i mod n))"
    unfolding next_cell_def lc ..
  also have "board_of n P ! i = (if P (int i div n) (int i mod n) then 1 else 0)"
    using i by (simp add: board_of_def)
  also have "life_rule (if P (int i div n) (int i mod n) then 1 else 0)
                 (count_of P (int i div n) (int i mod n))
             = (if Q (int i div n) (int i mod n) then 1 else 0)"
    by (rule assms(2))
  also have "\<dots> = board_of n Q ! i" using i by (simp add: board_of_def)
  finally show "next_gen n (board_of n P) ! i = board_of n Q ! i" .
qed

lemma blinker_h_to_v:
  "life_rule (if blinker_horizontal cx cy x y then 1 else 0) (count_of (blinker_horizontal cx cy) x y)
   = (if blinker_vertical cx cy x y then 1 else 0)"
proof -
  consider "x < cx - 1" | "x = cx - 1" | "x = cx" | "x = cx + 1" | "cx + 1 < x" by linarith
  then show ?thesis
  proof cases
    case 1 then show ?thesis
      by (simp add: blinker_horizontal_def blinker_vertical_def count_of_def life_rule_def)
  next
    case 2
    consider "y < cy - 1" | "y = cy - 1" | "y = cy" | "y = cy + 1" | "cy + 1 < y" by linarith
    then show ?thesis using 2
      by cases (simp_all add: blinker_horizontal_def blinker_vertical_def count_of_def life_rule_def)
  next
    case 3
    consider "y < cy - 2" | "y = cy - 2" | "y = cy - 1" | "y = cy" | "y = cy + 1" | "y = cy + 2" | "cy + 2 < y" by linarith
    then show ?thesis using 3
      by cases (simp_all add: blinker_horizontal_def blinker_vertical_def count_of_def life_rule_def)
  next
    case 4
    consider "y < cy - 1" | "y = cy - 1" | "y = cy" | "y = cy + 1" | "cy + 1 < y" by linarith
    then show ?thesis using 4
      by cases (simp_all add: blinker_horizontal_def blinker_vertical_def count_of_def life_rule_def)
  next
    case 5 then show ?thesis
      by (simp add: blinker_horizontal_def blinker_vertical_def count_of_def life_rule_def)
  qed
qed

lemma count_of_transpose: "count_of (\<lambda>a b. P b a) x y = count_of P y x"
  by (simp add: count_of_def)

lemma blinker_v_to_h:
  "life_rule (if blinker_vertical cx cy x y then 1 else 0) (count_of (blinker_vertical cx cy) x y)
   = (if blinker_horizontal cx cy x y then 1 else 0)"
proof -
  have v: "blinker_vertical cx cy = (\<lambda>a b. blinker_horizontal cy cx b a)"
    by (auto simp: blinker_vertical_def blinker_horizontal_def fun_eq_iff)
  have h: "blinker_horizontal cx cy x y = blinker_vertical cy cx y x"
    by (auto simp: blinker_vertical_def blinker_horizontal_def)
  have c: "count_of (blinker_vertical cx cy) x y = count_of (blinker_horizontal cy cx) y x"
    unfolding v by (rule count_of_transpose)
  have "life_rule (if blinker_horizontal cy cx y x then 1 else 0) (count_of (blinker_horizontal cy cx) y x)
        = (if blinker_vertical cy cx y x then 1 else 0)"
    by (rule blinker_h_to_v)
  then show ?thesis unfolding c h by (simp only: v)
qed

lemma blinker_step:
  assumes "1 \<le> cx" "cx \<le> n - 2" "1 \<le> cy" "cy \<le> n - 2"
  shows "next_gen n (board_of n (blinker_horizontal cx cy)) = board_of n (blinker_vertical cx cy)"
    and "next_gen n (board_of n (blinker_vertical cx cy)) = board_of n (blinker_horizontal cx cy)"
proof -
  show "next_gen n (board_of n (blinker_horizontal cx cy)) = board_of n (blinker_vertical cx cy)"
    using assms by (intro next_gen_board_of blinker_h_to_v) (auto simp: blinker_horizontal_def)
  show "next_gen n (board_of n (blinker_vertical cx cy)) = board_of n (blinker_horizontal cx cy)"
    using assms by (intro next_gen_board_of blinker_v_to_h) (auto simp: blinker_vertical_def)
qed

lemma next_gen_all_dead:
  "next_gen n (replicate (nat (n * n)) 0) = replicate (nat (n * n)) 0"
proof -
  have "replicate (nat (n * n)) (0 :: ubyte) = board_of n (\<lambda>x y. False)"
    by (simp add: board_of_def map_replicate_const)
  moreover have "next_gen n (board_of n (\<lambda>x y. False)) = board_of n (\<lambda>x y. False)"
    by (intro next_gen_board_of) (simp_all add: count_of_def life_rule_def)
  ultimately show ?thesis by simp
qed

lemma funpow_all_dead:
  "(next_gen n ^^ k) (replicate (nat (n * n)) 0) = replicate (nat (n * n)) 0"
  by (induction k) (simp_all add: next_gen_all_dead)

subsection \<open>The loops of the host code\<close>

lemma for_loop_snoc:
  "for_loop (xs @ [i]) body s =
     (case for_loop xs body s of None \<Rightarrow> None | Some s' \<Rightarrow> body i s')"
  by (induction xs arbitrary: s) (auto split: option.splits)

lemma randomize_row:
  assumes "length buf = w * w" "x < w" "k \<le> w"
  shows "for_loop [0..<k] (\<lambda>y buf. store buf (int x * int w + int y) (if r x y then 0x1 else 0x0)) buf =
         Some (map (\<lambda>i. if x * w \<le> i \<and> i < x * w + k then drawn r w i else buf ! i) [0..<w * w])"
  using assms(3)
proof (induction k)
  case 0
  show ?case using assms(1) by (auto intro!: nth_equalityI)
next
  case (Suc k)
  let ?b = "map (\<lambda>i. if x * w \<le> i \<and> i < x * w + k then drawn r w i else buf ! i) [0..<w * w]"
  have ih: "for_loop [0..<k] (\<lambda>y buf. store buf (int x * int w + int y) (if r x y then 0x1 else 0x0)) buf = Some ?b"
    using Suc by simp
  have "x * w + k < (x + 1) * w" using Suc.prems by simp
  also have "\<dots> \<le> w * w" using assms(2) by (metis Suc_eq_plus1 Suc_leI mult.commute mult_le_mono2)
  finally have lt: "x * w + k < w * w" .
  have idx: "int x * int w + int k = int (x * w + k)" by simp
  have dm: "(x * w + k) div w = x" "(x * w + k) mod w = k" using Suc.prems by auto
  define v :: ubyte where "v = (if r x k then 0x1 else 0x0)"
  have "store ?b (int (x * w + k)) v = Some (?b[x * w + k := v])"
    using lt by (simp add: store_def del: of_nat_add of_nat_mult)
  moreover have "?b[x * w + k := v] =
      map (\<lambda>i. if x * w \<le> i \<and> i < x * w + Suc k then drawn r w i else buf ! i) [0..<w * w]"
    using lt Suc.prems by (intro nth_equalityI) (auto simp: nth_list_update drawn_def dm v_def)
  ultimately have "store ?b (int x * int w + int k) (if r x k then 0x1 else 0x0) =
        Some (map (\<lambda>i. if x * w \<le> i \<and> i < x * w + Suc k then drawn r w i else buf ! i) [0..<w * w])"
    unfolding idx v_def by simp
  then show ?case using ih by (simp add: for_loop_snoc)
qed

lemma randomize_rows:
  assumes "length buf = w * w" "j \<le> w"
  shows "for_loop [0..<j] (\<lambda>x. for_loop [0..<w]
            (\<lambda>y buf. store buf (int x * int w + int y) (if r x y then 0x1 else 0x0))) buf =
         Some (map (\<lambda>i. if i < j * w then drawn r w i else buf ! i) [0..<w * w])"
  using assms(2)
proof (induction j)
  case 0
  show ?case using assms(1) by (auto intro!: nth_equalityI)
next
  case (Suc j)
  let ?b = "map (\<lambda>i. if i < j * w then drawn r w i else buf ! i) [0..<w * w]"
  have ih: "for_loop [0..<j] (\<lambda>x. for_loop [0..<w]
            (\<lambda>y buf. store buf (int x * int w + int y) (if r x y then 0x1 else 0x0))) buf = Some ?b"
    using Suc by simp
  have "for_loop [0..<w] (\<lambda>y buf. store buf (int j * int w + int y) (if r j y then 0x1 else 0x0)) ?b =
        Some (map (\<lambda>i. if j * w \<le> i \<and> i < j * w + w then drawn r w i else ?b ! i) [0..<w * w])"
    using Suc.prems by (intro randomize_row) auto
  also have "map (\<lambda>i. if j * w \<le> i \<and> i < j * w + w then drawn r w i else ?b ! i) [0..<w * w]
      = map (\<lambda>i. if i < Suc j * w then drawn r w i else buf ! i) [0..<w * w]"
    by (auto simp: add.commute)
  finally show ?case using ih by (simp add: for_loop_snoc)
qed

lemma randomizeBoard_square:
  assumes "length buf = nat (n * n)" "0 \<le> n"
  shows "randomizeBoard r buf n n = Some (map (drawn r (nat n)) [0..<nat (n * n)])"
proof -
  obtain w where w: "n = int w" using assms(2) by (metis nat_0_le)
  have len: "length buf = w * w" using assms(1) by (simp add: w nat_mult_distrib)
  show ?thesis
    unfolding randomizeBoard_def w using randomize_rows[OF len, of w r]
    by (simp add: nat_mult_distrib)
qed


lemma print_row:
  assumes "length b = w * w" "x < w" "k \<le> w"
  shows "for_loop [0..<k] (\<lambda>y out. do {
             c \<leftarrow> load b (int x * int w + int y);
             Some (out @ [if c \<noteq> 0 then CHR ''o'' else CHR '' '', CHR '' ''])
           }) out =
         Some (out @ concat (map (\<lambda>y. [glyph (b ! (x * w + y)), CHR '' '']) [0..<k]))"
  using assms(3)
proof (induction k)
  case 0
  show ?case by simp
next
  case (Suc k)
  have "x * w + k < (x + 1) * w" using Suc.prems by simp
  also have "\<dots> \<le> w * w" using assms(2) by (metis Suc_eq_plus1 Suc_leI mult.commute mult_le_mono2)
  finally have lt: "x * w + k < w * w" .
  have "load b (int (x * w + k)) = Some (b ! (x * w + k))"
    using lt assms(1) by (simp add: load_def del: of_nat_add of_nat_mult)
  then have ld: "load b (int x * int w + int k) = Some (b ! (x * w + k))" by simp
  show ?case using Suc by (simp add: for_loop_snoc ld glyph_def)
qed

lemma print_rows:
  assumes "length b = w * w" "j \<le> w"
  shows "for_loop [0..<j] (\<lambda>x out. do {
           out \<leftarrow> for_loop [0..<w] (\<lambda>y out. do {
               c \<leftarrow> load b (int x * int w + int y);
               Some (out @ [if c \<noteq> 0 then CHR ''o'' else CHR '' '', CHR '' ''])
             }) out;
           Some (out @ [CHR 0x0A])
         }) out =
         Some (out @ concat (map (\<lambda>x. concat (map (\<lambda>y. [glyph (b ! (x * w + y)), CHR '' '']) [0..<w])
                                   @ [CHR 0x0A]) [0..<j]))"
  using assms(2)
proof (induction j)
  case 0
  show ?case by simp
next
  case (Suc j)
  then show ?case using print_row[OF assms(1), of j w] by (simp add: for_loop_snoc)
qed

lemma printBoard_square:
  assumes "length b = nat (n * n)" "0 \<le> n"
  shows "printBoard msg b n n = Some (msg @ [CHR 0x0A] @ render (nat n) b)"
proof -
  obtain w where w: "n = int w" using assms(2) by (metis nat_0_le)
  have len: "length b = w * w" using assms(1) by (simp add: w nat_mult_distrib)
  show ?thesis
    unfolding printBoard_def w render_def using print_rows[OF len, of w]
    by simp
qed

lemma render_first:
  assumes "0 < w"
  shows "\<exists>rest. render w b = glyph (b ! 0) # rest"
proof -
  have "[0..<w] = 0 # [1..<w]" using assms by (simp add: upt_conv_Cons)
  then show ?thesis by (simp add: render_def)
qed

lemma render_differs:
  assumes "0 < w" "glyph (b ! 0) \<noteq> glyph (b' ! 0)"
  shows "msg @ [CHR 0x0A] @ render w b \<noteq> msg @ [CHR 0x0A] @ render w b'"
  using render_first[OF assms(1), of b] render_first[OF assms(1), of b'] assms(2) by auto

subsection \<open>The generation loop and main\<close>

text \<open>
  After \<open>k\<close> generations the newest board is the \<open>k\<close>-th generation of the first one, and
  \<open>pcurr\<close> points to the board before it.
\<close>

lemma newest_Suc: "newest (Suc k) \<noteq> newest k"
  by (simp add: newest_def)

lemma generation_loop_square:
  assumes "length (m pDevBoard0) = nat (n * n)" "length (m pDevBoard1) = nat (n * n)"
    and "n = int (g * BLOCK_SIDE)"
  shows "\<exists>m' pc pn. generation_loop g g n n (int k) m = Some (m', pc, pn)
           \<and> m' (newest k) = (next_gen n ^^ k) (m pDevBoard0)
           \<and> length (m' pDevBoard0) = nat (n * n) \<and> length (m' pDevBoard1) = nat (n * n)
           \<and> (k = 0 \<longrightarrow> pc = None)
           \<and> (0 < k \<longrightarrow> pc = Some (newest (k - 1)) \<and> pn = Some (newest k)
                 \<and> m' (newest (k - 1)) = (next_gen n ^^ (k - 1)) (m pDevBoard0))"
proof (induction k)
  case 0
  show ?case using assms(1,2) by (simp add: generation_loop_def newest_def)
next
  case (Suc k)
  then obtain m' pc pn where ih:
    "generation_loop g g n n (int k) m = Some (m', pc, pn)"
    "m' (newest k) = (next_gen n ^^ k) (m pDevBoard0)"
    "length (m' pDevBoard0) = nat (n * n)" "length (m' pDevBoard1) = nat (n * n)"
    by blast
  have len: "length (m' p) = nat (n * n)" for p using ih(3,4) by (cases p) auto
  have step: "simstep g g n n (newest k) (newest (Suc k)) m' =
              Some (m'(newest (Suc k) := next_gen n (m' (newest k))))"
    using newest_Suc[of k] len assms(3) by (intro simstep_square) auto
  have sel: "(if k mod 2 = 0 then (pDevBoard0, pDevBoard1) else (pDevBoard1, pDevBoard0))
             = (newest k, newest (Suc k))"
    by (simp add: newest_def odd_iff_mod_2_eq_one)
  define body where "body = (\<lambda>(gen :: nat) (m, _ :: devptr option, _ :: devptr option).
         let (pcurr, pnext) =
               (if gen mod 2 = 0 then (pDevBoard0, pDevBoard1) else (pDevBoard1, pDevBoard0))
         in do {
           m \<leftarrow> simstep g g n n pcurr pnext m;
           Some (m, Some pcurr, Some pnext)
         })"
  have loop: "generation_loop g g n n (int j) m = for_loop [0..<j] body (m, None, None)" for j
    unfolding generation_loop_def body_def by simp
  have "body k (m', pc, pn) =
        Some (m'(newest (Suc k) := next_gen n (m' (newest k))), Some (newest k), Some (newest (Suc k)))"
    unfolding body_def prod.case sel using step by simp
  then have a: "generation_loop g g n n (int (Suc k)) m =
        Some (m'(newest (Suc k) := next_gen n (m' (newest k))), Some (newest k), Some (newest (Suc k)))"
    using ih(1) unfolding loop by (simp add: for_loop_snoc)
  let ?m2 = "m'(newest (Suc k) := next_gen n (m' (newest k)))"
  have b: "?m2 (newest (Suc k)) = (next_gen n ^^ Suc k) (m pDevBoard0)"
    using ih(2) by simp
  have c: "?m2 (newest k) = (next_gen n ^^ k) (m pDevBoard0)"
    using ih(2) newest_Suc[of k] by simp
  have d: "length (?m2 p) = nat (n * n)" for p
    using len by (simp add: length_next_gen)
  have "generation_loop g g n n (int (Suc k)) m = Some (?m2, Some (newest k), Some (newest (Suc k)))
      \<and> ?m2 (newest (Suc k)) = (next_gen n ^^ Suc k) (m pDevBoard0)
      \<and> length (?m2 pDevBoard0) = nat (n * n) \<and> length (?m2 pDevBoard1) = nat (n * n)
      \<and> (Suc k = 0 \<longrightarrow> Some (newest k) = None)
      \<and> (0 < Suc k \<longrightarrow> Some (newest k) = Some (newest (Suc k - 1))
            \<and> Some (newest (Suc k)) = Some (newest (Suc k))
            \<and> ?m2 (newest (Suc k - 1)) = (next_gen n ^^ (Suc k - 1)) (m pDevBoard0))"
    using a b c d by simp
  then show ?case by blast
qed

lemma board_constants:
  "boardH = boardW" "0 \<le> boardW" "boardW = int (4 * BLOCK_SIDE)"
  "nat (boardW div int BLOCK_SIDE) = 4"
  by (simp_all add: boardW_def boardH_def BLOCK_SIDE_def)

lemma length_first_board: "length (first_board e) = nat (boardW * boardW)"
  by (simp add: first_board_def)

lemma main_allocation_failure:
  "\<not> malloc_ok e \<Longrightarrow> main e = Fault NullHostBuffer"
  "malloc_ok e \<Longrightarrow> \<not> (cudaMalloc0_ok e \<and> cudaMalloc1_ok e) \<Longrightarrow> main e = Fault InvalidDeviceBuffer"
proof -
  show "\<not> malloc_ok e \<Longrightarrow> main e = Fault NullHostBuffer"
    by (simp add: main_def Let_def)
next
  assume a: "malloc_ok e" "\<not> (cudaMalloc0_ok e \<and> cudaMalloc1_ok e)"
  have rb: "randomizeBoard (rnd_ge e) (map (garbage e) [0..<nat (boardW * boardW)]) boardW boardW
            = Some (first_board e)"
    unfolding first_board_def using board_constants(2) by (intro randomizeBoard_square) simp_all
  have pr: "printBoard ''Initial Board:'' (first_board e) boardW boardW
            = Some (''Initial Board:'' @ [CHR 0x0A] @ render (nat boardW) (first_board e))"
    using length_first_board board_constants(2) by (rule printBoard_square)
  show "main e = Fault InvalidDeviceBuffer"
    unfolding main_def board_constants(1) using a by (auto simp: Let_def rb pr)
qed

text \<open>
  A run of \<open>k + 1\<close> generations in which the allocations succeed completes, and the board
  it prints at the end is the \<open>k\<close>-th generation.
\<close>

lemma main_completed:
  assumes "malloc_ok e" "cudaMalloc0_ok e" "cudaMalloc1_ok e"
    and "ngenerations_of (argv e) = int (Suc k)"
  shows "main e = Exit0 \<lparr>running = int (Suc k),
           initial_board = ''Initial Board:'' @ [CHR 0x0A] @ render (nat boardW) (first_board e),
           resulting_board = ''Resulting Board:'' @ [CHR 0x0A]
              @ render (nat boardW) ((next_gen boardW ^^ k) (first_board e)),
           summary = int (Suc k)\<rparr>"
proof -
  have rb: "randomizeBoard (rnd_ge e) (map (garbage e) [0..<nat (boardW * boardW)]) boardW boardW
            = Some (first_board e)"
    unfolding first_board_def using board_constants(2) by (intro randomizeBoard_square) simp_all
  have pr: "printBoard msg b boardW boardW = Some (msg @ [CHR 0x0A] @ render (nat boardW) b)"
    if "length b = nat (boardW * boardW)" for msg b
    using that board_constants(2) by (rule printBoard_square)
  define m0 :: devmem where
    "m0 = (\<lambda>p. case p of pDevBoard0 \<Rightarrow> first_board e
                         | pDevBoard1 \<Rightarrow> replicate (nat (boardW * boardW)) 0x0)"
  have len0: "length (m0 pDevBoard0) = nat (boardW * boardW)"
    "length (m0 pDevBoard1) = nat (boardW * boardW)"
    by (simp_all add: m0_def length_first_board)
  obtain m' pc pn where gl:
    "generation_loop 4 4 boardW boardW (int (Suc k)) m0 = Some (m', pc, pn)"
    "length (m' pDevBoard0) = nat (boardW * boardW)" "length (m' pDevBoard1) = nat (boardW * boardW)"
    "pc = Some (newest k)" "m' (newest k) = (next_gen boardW ^^ k) (m0 pDevBoard0)"
    using generation_loop_square[OF len0 board_constants(3), of "Suc k"] by auto
  have lenk: "length (m' (newest k)) = nat (boardW * boardW)"
    using gl(2,3) by (cases "newest k") auto
  have pk: "printBoard ''Resulting Board:'' (m' (newest k)) boardW boardW
        = Some (''Resulting Board:'' @ [CHR 0x0A] @ render (nat boardW) ((next_gen boardW ^^ k) (first_board e)))"
    using pr[OF lenk] gl(5) by (simp add: m0_def)
  show ?thesis
    unfolding main_def board_constants(1) board_constants(4) Let_def rb
    using assms(1-3) gl(1,4) pk pr[OF length_first_board]
    by (simp add: assms(4) m0_def del: of_nat_Suc)
qed

lemma lone_cell_board:
  "first_board lone_cell_run ! 0 = 1"
  "next_gen boardW (first_board lone_cell_run) ! 0 = 0"
proof -
  let ?b = "first_board lone_cell_run"
  have cells: "?b ! 0 = 1" "?b ! 1 = 0" "?b ! 64 = 0" "?b ! 65 = 0"
    by (simp_all add: first_board_def lone_cell_run_def boardW_def drawn_def)
  show "?b ! 0 = 1" by (rule cells)
  have "live_count boardW ?b 0 0 = 0"
    using cells by (simp add: live_count_def cell_at_def boardW_def)
  moreover have "next_gen boardW ?b ! nat (0 * boardW + 0)
        = life_rule (?b ! nat (0 * boardW + 0)) (live_count boardW ?b 0 0)"
    by (rule next_gen_nth) (simp_all add: length_first_board, simp_all add: boardW_def)
  ultimately show "next_gen boardW ?b ! 0 = 0"
    using cells(1) by (simp add: life_rule_def)
qed

lemma main_never_aborts: "main e \<noteq> Aborted d"
  by (simp add: main_def Let_def split: option.splits prod.splits)

lemma atoi_non_numeric:
  assumes "non_numeric s"
  shows "atoi s = 0"
proof (cases "dropWhile isspace s")
  case Nil
  show ?thesis unfolding atoi_def Nil by simp
next
  case (Cons c cs)
  show ?thesis
  proof (cases "c = CHR ''-'' \<or> c = CHR ''+''")
    case True
    then have "cs = [] \<or> (\<exists>d ds. cs = d # ds \<and> \<not> isdigit d)"
      using assms Cons by (cases cs) (auto simp: non_numeric_def)
    then have "atoi_digits 0 cs = 0" by auto
    with True show ?thesis unfolding atoi_def Cons by auto
  next
    case False
    then have "\<not> isdigit c" using assms Cons by (simp add: non_numeric_def)
    with False show ?thesis unfolding atoi_def Cons by simp
  qed
qed

subsection \<open>Boards that are not square\<close>

text \<open>
  The functions take \<open>nrows\<close> and \<open>ncols\<close> separately, but they let \<open>x\<close> range below \<open>ncols\<close>
  and \<open>y\<close> below \<open>nrows\<close> and compute the index \<open>x * ncols + y\<close>.  That fits a buffer of
  \<open>nrows * ncols\<close> bytes, one byte per cell, only when both are equal, as they are in \<open>main\<close>.
  On a board of one row and two columns the cell \<open>(1, 0)\<close> is read outside the buffer; on a
  board of three rows and two columns the cells \<open>(0, 2)\<close> and \<open>(1, 0)\<close> share a byte.  This
  is why the results of this development are stated for square boards.
\<close>

lemma getat_wide_board:
  "getat [0, 0] 1 2 1 0 = None"
  by (simp add: getat_def load_def)

lemma getat_tall_board:
  "getat [0, 0, 7, 0, 0, 0] 3 2 0 2 = Some 7" "getat [0, 0, 7, 0, 0, 0] 3 2 1 0 = Some 7"
  by (simp_all add: getat_def load_def)

section \<open>The claims\<close>



text \<open>
  Claim C2 does not hold of the code.  After the loop \<open>main\<close> copies the buffer \<open>pcurr\<close>
  back, which is the buffer that the last generation step read, not the one it wrote.
  In the run \<open>lone_cell_run\<close> of one generation the program completes and the text printed
  under "Resulting Board:" is the rendering of the first board, with no generation
  applied; it differs from the rendering of the board that the one generation step
  wrote into \<open>pDevBoard1\<close>.
\<close>

theorem main_renders_board_before_last_step:
  "\<exists>out m1 expected.
      main lone_cell_run = Exit0 out
    \<and> printBoard ''Resulting Board:'' (first_board lone_cell_run) boardH boardW
        = Some (resulting_board out)
    \<and> simstep 4 4 boardH boardW pDevBoard0 pDevBoard1
        (\<lambda>p. case p of pDevBoard0 \<Rightarrow> first_board lone_cell_run
                      | pDevBoard1 \<Rightarrow> replicate (nat (boardW * boardH)) 0x0) = Some m1
    \<and> printBoard ''Resulting Board:'' (m1 pDevBoard1) boardH boardW = Some expected
    \<and> resulting_board out \<noteq> expected"
proof -
  let ?e = lone_cell_run
  let ?b = "first_board ?e"
  let ?m0 = "\<lambda>p. case p of pDevBoard0 \<Rightarrow> ?b | pDevBoard1 \<Rightarrow> replicate (nat (boardW * boardW)) 0x0"
  let ?m1 = "?m0(pDevBoard1 := next_gen boardW (?m0 pDevBoard0))"
  let ?shown = "''Resulting Board:'' @ [CHR 0x0A] @ render (nat boardW) ?b"
  let ?expected = "''Resulting Board:'' @ [CHR 0x0A] @ render (nat boardW) (next_gen boardW ?b)"
  have n: "ngenerations_of (argv ?e) = int (Suc 0)"
    by (simp add: lone_cell_run_def ngenerations_of_def atoi_def isspace_def isdigit_def)
  have run: "main ?e = Exit0 \<lparr>running = int (Suc 0),
           initial_board = ''Initial Board:'' @ [CHR 0x0A] @ render (nat boardW) ?b,
           resulting_board = ''Resulting Board:'' @ [CHR 0x0A] @ render (nat boardW) ((next_gen boardW ^^ 0) ?b),
           summary = int (Suc 0)\<rparr>"
    by (rule main_completed[OF _ _ _ n]) (simp_all add: lone_cell_run_def)
  have shown: "printBoard ''Resulting Board:'' ?b boardW boardW = Some ?shown"
    using length_first_board board_constants(2) by (rule printBoard_square)
  have step: "simstep 4 4 boardW boardW pDevBoard0 pDevBoard1 ?m0 = Some ?m1"
    by (rule simstep_square) (simp_all add: length_first_board board_constants(3))
  have "length (next_gen boardW ?b) = nat (boardW * boardW)"
    by (simp add: length_next_gen length_first_board)
  then have expected: "printBoard ''Resulting Board:'' (?m1 pDevBoard1) boardW boardW = Some ?expected"
    using printBoard_square[of "next_gen boardW ?b" boardW "''Resulting Board:''"] board_constants(2)
    by simp
  have "glyph (?b ! 0) \<noteq> glyph (next_gen boardW ?b ! 0)"
    unfolding lone_cell_board by (simp add: glyph_def)
  then have differ: "?shown \<noteq> ?expected"
    by (intro render_differs) (simp_all add: boardW_def)
  show ?thesis
    unfolding board_constants(1)
    using run shown step expected differ by (intro exI[of _ "\<lparr>running = int (Suc 0),
           initial_board = ''Initial Board:'' @ [CHR 0x0A] @ render (nat boardW) ?b,
           resulting_board = ?shown, summary = int (Suc 0)\<rparr>"] exI[of _ ?m1] exI[of _ ?expected]) simp
qed

text \<open>
  Claim C3.  On a square board \<open>numneighbors\<close> returns the sum of exactly eight reads
  through \<open>getat\<close>, at the eight offsets around \<open>(x, y)\<close>; the offsets are distinct and
  the cell itself (offset \<open>(0, 0)\<close>) is not among them.  For a cell in the interior of
  a board of zeros and ones, the result is the count made by hand: the live cells of the
  3 by 3 block, without the centre.
\<close>

theorem numneighbors_sums_eight_reads:
  assumes "length b = nat (n * n)"
  shows "(\<exists>cs. map (\<lambda>(dx, dy). getat b n n (x + dx) (y + dy)) neighbour_offsets = map Some cs
              \<and> numneighbors x y b n n = Some (sum_list (map uint cs)))
       \<and> length neighbour_offsets = 8 \<and> distinct neighbour_offsets
       \<and> set neighbour_offsets = set [(dx, dy). dx \<leftarrow> [-1, 0, 1], dy \<leftarrow> [-1, 0, 1]] - {(0, 0)}
       \<and> (binary b \<and> 1 \<le> x \<and> x \<le> n - 2 \<and> 1 \<le> y \<and> y \<le> n - 2
            \<longrightarrow> numneighbors x y b n n = Some (manual_count n b x y))"
proof (intro conjI impI)
  let ?cs = "map (\<lambda>(dx, dy). cell_at n b (x + dx) (y + dy)) neighbour_offsets"
  have "map (\<lambda>(dx, dy). getat b n n (x + dx) (y + dy)) neighbour_offsets = map Some ?cs"
    by (simp add: neighbour_offsets_def getat_square[OF assms])
  moreover have "numneighbors x y b n n = Some (sum_list (map uint ?cs))"
    by (simp add: neighbour_offsets_def numneighbors_square[OF assms] live_count_def)
  ultimately show "\<exists>cs. map (\<lambda>(dx, dy). getat b n n (x + dx) (y + dy)) neighbour_offsets = map Some cs
              \<and> numneighbors x y b n n = Some (sum_list (map uint cs))"
    by blast
next
  show "length neighbour_offsets = 8" by (simp add: neighbour_offsets_def)
next
  show "distinct neighbour_offsets" by (simp add: neighbour_offsets_def)
next
  show "set neighbour_offsets = set [(dx, dy). dx \<leftarrow> [-1, 0, 1], dy \<leftarrow> [-1, 0, 1]] - {(0, 0)}"
    by (auto simp: neighbour_offsets_def)
next
  assume "binary b \<and> 1 \<le> x \<and> x \<le> n - 2 \<and> 1 \<le> y \<and> y \<le> n - 2"
  then show "numneighbors x y b n n = Some (manual_count n b x y)"
    using interior_count[of b n x y] assms by (simp add: numneighbors_square)
qed

theorem numneighbors_sums_eight_reads_witness:
  "length (replicate 4096 (1 :: ubyte)) = nat (64 * 64)
   \<and> binary (replicate 4096 1) \<and> (1 :: int) \<le> 5 \<and> (5 :: int) \<le> 64 - 2
   \<and> numneighbors 5 5 (replicate 4096 1) 64 64 = Some (manual_count 64 (replicate 4096 1) 5 5)
   \<and> manual_count 64 (replicate 4096 1) 5 5 = 8"
proof -
  have len: "length (replicate 4096 (1 :: ubyte)) = nat (64 * 64)" by simp
  have bin: "binary (replicate 4096 1)" by (simp add: binary_def list_all_length)
  have "numneighbors 5 5 (replicate 4096 1) 64 64 = Some (manual_count 64 (replicate 4096 1) 5 5)"
    using numneighbors_sums_eight_reads[OF len, of 5 5] bin by simp
  moreover have "manual_count 64 (replicate 4096 1) 5 5 = 8"
    by (simp add: manual_count_def)
  ultimately show ?thesis using len bin by simp
qed

text \<open>
  Claim C4.  On a square board, \<open>getat\<close> returns the stored cell for coordinates inside
  the board and the dead value 0 for all others; it always returns, that is, it never
  reads outside the buffer, and the index of every cell inside the board lies in the
  buffer.  The corner cell \<open>(0, 0)\<close> gets its count from its three neighbours inside
  the board only: \<open>(1, 0)\<close>, \<open>(0, 1)\<close> and \<open>(1, 1)\<close>.
\<close>

theorem getat_boundary_safe:
  assumes "length b = nat (n * n)"
  shows "getat b n n x y =
           Some (if 0 \<le> x \<and> x < n \<and> 0 \<le> y \<and> y < n then b ! nat (x * n + y) else 0)
       \<and> (0 \<le> x \<and> x < n \<and> 0 \<le> y \<and> y < n \<longrightarrow> 0 \<le> x * n + y \<and> x * n + y < int (length b))
       \<and> (2 \<le> n \<longrightarrow> numneighbors 0 0 b n n =
             Some (uint (b ! nat (1 * n + 0)) + uint (b ! nat (0 * n + 1)) + uint (b ! nat (1 * n + 1))))"
proof (intro conjI impI)
  show "getat b n n x y = Some (if 0 \<le> x \<and> x < n \<and> 0 \<le> y \<and> y < n then b ! nat (x * n + y) else 0)"
    using getat_square[OF assms] by (simp add: cell_at_def)
next
  assume "0 \<le> x \<and> x < n \<and> 0 \<le> y \<and> y < n"
  then show "0 \<le> x * n + y" "x * n + y < int (length b)"
    using index_bounds[of x n y] assms by auto
next
  assume "2 \<le> n"
  with assms show "numneighbors 0 0 b n n =
             Some (uint (b ! nat (1 * n + 0)) + uint (b ! nat (0 * n + 1)) + uint (b ! nat (1 * n + 1)))"
    by (rule corner_count)
qed

theorem getat_boundary_safe_witness:
  "length (replicate 4096 (1 :: ubyte)) = nat (64 * 64)
   \<and> getat (replicate 4096 1) 64 64 63 63 = Some 1
   \<and> getat (replicate 4096 1) 64 64 64 0 = Some 0
   \<and> numneighbors 0 0 (replicate 4096 1) 64 64 = Some 3"
  using getat_boundary_safe[of "replicate 4096 1" 64 63 63]
        getat_boundary_safe[of "replicate 4096 1" 64 64 0]
  by simp

text \<open>
  Claim C5.  On a square board the thread of the cell \<open>(x, y)\<close> changes device memory in
  one place only, the byte of index \<open>x * n + y\<close> of the next buffer.  That index lies
  inside the buffer, and no other cell of the board has the same index, so two threads
  never write the same byte.  The current buffer is the same after the whole step as
  before it.
\<close>

theorem simstep_writes_disjoint:
  assumes "pCurrBoard \<noteq> pNewBoard"
    and "length (m pCurrBoard) = nat (n * n)" "length (m pNewBoard) = nat (n * n)"
    and "0 \<le> x" "x < n" "0 \<le> y" "y < n"
  shows "(\<exists>v. simstep_thread n n pCurrBoard pNewBoard x y m =
               Some (m(pNewBoard := (m pNewBoard)[nat (x * n + y) := v])))
       \<and> 0 \<le> x * n + y \<and> x * n + y < int (length (m pNewBoard))
       \<and> (\<forall>x' y'. 0 \<le> x' \<and> x' < n \<and> 0 \<le> y' \<and> y' < n \<and> (x', y') \<noteq> (x, y)
              \<longrightarrow> x' * n + y' \<noteq> x * n + y)
       \<and> (\<forall>g. n = int (g * BLOCK_SIDE)
              \<longrightarrow> (\<exists>m'. simstep g g n n pCurrBoard pNewBoard m = Some m'
                        \<and> m' pCurrBoard = m pCurrBoard))"
proof (intro conjI allI impI)
  show "\<exists>v. simstep_thread n n pCurrBoard pNewBoard x y m =
               Some (m(pNewBoard := (m pNewBoard)[nat (x * n + y) := v]))"
    using assms by (rule simstep_thread_writes_one)
next
  show "0 \<le> x * n + y" "x * n + y < int (length (m pNewBoard))"
    using index_bounds[of x n y] assms by auto
next
  fix x' y'
  assume a: "0 \<le> x' \<and> x' < n \<and> 0 \<le> y' \<and> y' < n \<and> (x', y') \<noteq> (x, y)"
  show "x' * n + y' \<noteq> x * n + y"
  proof
    assume "x' * n + y' = x * n + y"
    then have "x' = x \<and> y' = y" using a assms(6,7) by (intro index_inj[of y' n y x' x]) auto
    with a show False by simp
  qed
next
  fix g
  assume "n = int (g * BLOCK_SIDE)"
  with assms(1-3) show "\<exists>m'. simstep g g n n pCurrBoard pNewBoard m = Some m'
                        \<and> m' pCurrBoard = m pCurrBoard"
    by (rule simstep_keeps_current)
qed

theorem simstep_writes_disjoint_witness:
  "pDevBoard0 \<noteq> pDevBoard1
   \<and> length (replicate 4096 (0 :: ubyte)) = nat (64 * 64)
   \<and> (0 :: int) \<le> 63 \<and> (63 :: int) < 64
   \<and> (63 :: int) * 64 + 63 < int (length (replicate 4096 (0 :: ubyte)))
   \<and> (\<exists>m'. simstep 4 4 64 64 pDevBoard0 pDevBoard1 (\<lambda>p. replicate 4096 0) = Some m'
           \<and> m' pDevBoard0 = replicate 4096 0)"
proof -
  have len: "length ((\<lambda>p. replicate 4096 (0 :: ubyte)) q) = nat (64 * 64)" for q :: devptr
    by simp
  have g: "(64 :: int) = int (4 * BLOCK_SIDE)"
    by (simp add: BLOCK_SIDE_def)
  have "\<forall>g. (64 :: int) = int (g * BLOCK_SIDE)
          \<longrightarrow> (\<exists>m'. simstep g g 64 64 pDevBoard0 pDevBoard1 (\<lambda>p. replicate 4096 0) = Some m'
                    \<and> m' pDevBoard0 = (\<lambda>p. replicate 4096 0) pDevBoard0)"
    using simstep_writes_disjoint[of pDevBoard0 pDevBoard1 "\<lambda>p. replicate 4096 0" 64 63 63, OF _ len len]
    by simp
  with g have "\<exists>m'. simstep 4 4 64 64 pDevBoard0 pDevBoard1 (\<lambda>p. replicate 4096 0) = Some m'
           \<and> m' pDevBoard0 = replicate 4096 0"
    by blast
  then show ?thesis by simp
qed

text \<open>
  Claim C6 does not hold of the code: \<open>main\<close> tests the result of no allocation.  In the
  run \<open>malloc_failure_run\<close> the host allocation fails and the program, instead of ending
  with a diagnostic, goes on to write through the null pointer in \<open>randomizeBoard\<close>.
\<close>

theorem malloc_failure_not_aborted:
  "main malloc_failure_run = Fault NullHostBuffer"
  by (simp add: main_def malloc_failure_run_def Let_def)

text \<open>
  Claim C6, amended.  If one of the three allocations fails, the program does not notice:
  it goes on to use the buffer it did not get.  A failed \<open>malloc\<close> leads to the write
  through the null pointer in \<open>randomizeBoard\<close>, a failed \<open>cudaMalloc\<close> to the use of the
  unallocated device buffer in the copy or the fill that follows it.  Both happen before
  the generation loop is entered, and no run of \<open>main\<close> ends with a diagnostic.
\<close>

theorem allocation_failure_unchecked:
  "(\<not> malloc_ok e \<longrightarrow> main e = Fault NullHostBuffer)
   \<and> (malloc_ok e \<and> \<not> (cudaMalloc0_ok e \<and> cudaMalloc1_ok e) \<longrightarrow> main e = Fault InvalidDeviceBuffer)
   \<and> (\<forall>d. main e \<noteq> Aborted d)"
  using main_allocation_failure[of e] main_never_aborts[of e] by blast

theorem allocation_failure_unchecked_witness:
  "\<not> malloc_ok malloc_failure_run \<and> main malloc_failure_run = Fault NullHostBuffer
   \<and> main malloc_failure_run \<noteq> Aborted ''out of memory''"
  using allocation_failure_unchecked[of malloc_failure_run]
  by (simp add: malloc_failure_run_def)

text \<open>
  Claim C7 does not hold of the code: the argument is converted with \<open>atoi\<close> and not
  checked.  For the argument "abc" the generation count is 0, while without an argument
  it is 1000000.
\<close>

theorem malformed_argument_not_default:
  "ngenerations_of [''./gol'', ''abc''] = 0 \<and> ngenerations_of [''./gol''] = 1000000"
  by (simp add: ngenerations_of_def atoi_def isspace_def isdigit_def)

text \<open>
  Claim C7, amended.  For an argument that does not start with a number (after white
  space and an optional sign) the generation count is 0, the result of \<open>atoi\<close>, whatever
  else the command line holds; the count 1000000 is used only when there is no argument.
\<close>

theorem non_numeric_argument_gives_zero:
  "(non_numeric s \<longrightarrow> ngenerations_of (prog # s # rest) = 0)
   \<and> ngenerations_of [prog] = 1000000"
  using atoi_non_numeric[of s] by (simp add: ngenerations_of_def)

theorem non_numeric_argument_gives_zero_witness:
  "non_numeric ''  -x1'' \<and> ngenerations_of [''./gol'', ''  -x1'', ''7''] = 0"
proof -
  have "non_numeric ''  -x1''"
    by (simp add: non_numeric_def isspace_def isdigit_def)
  then show ?thesis
    using non_numeric_argument_gives_zero[of "''  -x1''" "''./gol''" "[''7'']"] by simp
qed

text \<open>
  Claim C8.  Take a square board whose side is a multiple of the block side, and on it
  three live cells side by side around a centre \<open>(cx, cy)\<close> that is not on the border,
  all other cells dead.  One generation step gives the three cells one above the other
  around the same centre, and the next step, with the two buffers exchanged as \<open>main\<close>
  does, gives the first board again.
\<close>

theorem blinker_oscillates:
  assumes "n = int (g * BLOCK_SIDE)"
    and "1 \<le> cx" "cx \<le> n - 2" "1 \<le> cy" "cy \<le> n - 2"
    and "pa \<noteq> pb"
    and "m pa = board_of n (blinker_horizontal cx cy)" "length (m pb) = nat (n * n)"
  shows "\<exists>m1 m2. simstep g g n n pa pb m = Some m1
            \<and> m1 pb = board_of n (blinker_vertical cx cy)
            \<and> simstep g g n n pb pa m1 = Some m2
            \<and> m2 pa = board_of n (blinker_horizontal cx cy)"
proof -
  let ?h = "board_of n (blinker_horizontal cx cy)"
  let ?v = "board_of n (blinker_vertical cx cy)"
  have len: "length (board_of n P) = nat (n * n)" for P
    by (simp add: board_of_def)
  let ?m1 = "m(pb := ?v)"
  let ?m2 = "?m1(pa := ?h)"
  have lena: "length (m pa) = nat (n * n)"
    unfolding assms(7) by (rule len)
  have "simstep g g n n pa pb m = Some (m(pb := next_gen n (m pa)))"
    using assms(6) lena assms(8) assms(1) by (rule simstep_square)
  then have s1: "simstep g g n n pa pb m = Some ?m1"
    using blinker_step(1)[OF assms(2-5)] assms(7) by simp
  have len1: "length (?m1 pb) = nat (n * n)" "length (?m1 pa) = nat (n * n)"
    using assms(6) lena by (simp_all add: len)
  have "simstep g g n n pb pa ?m1 = Some (?m1(pa := next_gen n (?m1 pb)))"
    using assms(6)[symmetric] len1 assms(1) by (rule simstep_square)
  then have s2: "simstep g g n n pb pa ?m1 = Some ?m2"
    using blinker_step(2)[OF assms(2-5)] by simp
  have "?m1 pb = ?v" "?m2 pa = ?h" by simp_all
  with s1 s2 show ?thesis by blast
qed

theorem blinker_oscillates_witness:
  "(64 :: int) = int (4 * BLOCK_SIDE) \<and> (1 :: int) \<le> 64 - 2 \<and> pDevBoard0 \<noteq> pDevBoard1
   \<and> length (replicate 4096 (0 :: ubyte)) = nat (64 * 64)
   \<and> (\<exists>m1 m2.
         simstep 4 4 64 64 pDevBoard0 pDevBoard1
           (\<lambda>p. case p of pDevBoard0 \<Rightarrow> board_of 64 (blinker_horizontal 1 1)
                            | pDevBoard1 \<Rightarrow> replicate 4096 0) = Some m1
         \<and> m1 pDevBoard1 = board_of 64 (blinker_vertical 1 1)
         \<and> simstep 4 4 64 64 pDevBoard1 pDevBoard0 m1 = Some m2
         \<and> m2 pDevBoard0 = board_of 64 (blinker_horizontal 1 1))"
proof -
  have g: "(64 :: int) = int (4 * BLOCK_SIDE)"
    by (simp add: BLOCK_SIDE_def)
  have "\<exists>m1 m2.
         simstep 4 4 64 64 pDevBoard0 pDevBoard1
           (\<lambda>p. case p of pDevBoard0 \<Rightarrow> board_of 64 (blinker_horizontal 1 1)
                            | pDevBoard1 \<Rightarrow> replicate 4096 0) = Some m1
         \<and> m1 pDevBoard1 = board_of 64 (blinker_vertical 1 1)
         \<and> simstep 4 4 64 64 pDevBoard1 pDevBoard0 m1 = Some m2
         \<and> m2 pDevBoard0 = board_of 64 (blinker_horizontal 1 1)"
    by (rule blinker_oscillates[OF g]) simp_all
  then show ?thesis by (simp add: BLOCK_SIDE_def)
qed

text \<open>
  Claim C9.  Start the generation loop of \<open>main\<close> on a square board, with side a multiple
  of the block side, whose cells are all dead.  For every number \<open>k\<close> of generations the
  loop returns, and the newest board is all dead; so is the board before it, which is
  the one that \<open>pcurr\<close> points to.
\<close>

theorem all_dead_stays_dead:
  assumes "n = int (g * BLOCK_SIDE)"
    and "m pDevBoard0 = replicate (nat (n * n)) 0" "length (m pDevBoard1) = nat (n * n)"
  shows "\<exists>m' pc pn. generation_loop g g n n (int k) m = Some (m', pc, pn)
           \<and> m' (newest k) = replicate (nat (n * n)) 0
           \<and> (0 < k \<longrightarrow> pc = Some (newest (k - 1)) \<and> pn = Some (newest k)
                 \<and> m' (newest (k - 1)) = replicate (nat (n * n)) 0)"
proof -
  have len0: "length (m pDevBoard0) = nat (n * n)" using assms(2) by simp
  obtain m' pc pn where l:
    "generation_loop g g n n (int k) m = Some (m', pc, pn)"
    "m' (newest k) = (next_gen n ^^ k) (m pDevBoard0)"
    "0 < k \<longrightarrow> pc = Some (newest (k - 1)) \<and> pn = Some (newest k)
                 \<and> m' (newest (k - 1)) = (next_gen n ^^ (k - 1)) (m pDevBoard0)"
    using generation_loop_square[OF len0 assms(3) assms(1), of k] by blast
  show ?thesis
    using l unfolding assms(2) funpow_all_dead by blast
qed

theorem all_dead_stays_dead_witness:
  "(64 :: int) = int (4 * BLOCK_SIDE) \<and> length (replicate 4096 (0 :: ubyte)) = nat (64 * 64)
   \<and> (\<exists>m' pc pn. generation_loop 4 4 64 64 1000 (\<lambda>p. replicate 4096 0) = Some (m', pc, pn)
          \<and> m' pDevBoard0 = replicate 4096 0)"
proof -
  have g: "(64 :: int) = int (4 * BLOCK_SIDE)"
    by (simp add: BLOCK_SIDE_def)
  have "\<exists>m' pc pn. generation_loop 4 4 64 64 (int 1000) (\<lambda>p. replicate 4096 0) = Some (m', pc, pn)
           \<and> m' (newest 1000) = replicate (nat (64 * 64)) 0
           \<and> (0 < (1000 :: nat) \<longrightarrow> pc = Some (newest (1000 - 1)) \<and> pn = Some (newest 1000)
                 \<and> m' (newest (1000 - 1)) = replicate (nat (64 * 64)) 0)"
    by (rule all_dead_stays_dead[OF g]) simp_all
  then have "\<exists>m' pc pn. generation_loop 4 4 64 64 1000 (\<lambda>p. replicate 4096 0) = Some (m', pc, pn)
          \<and> m' pDevBoard0 = replicate 4096 0"
    by (auto simp: newest_def)
  then show ?thesis by (simp add: BLOCK_SIDE_def)
qed



end
